theory Spec2Isabelle
  imports Main "HOL-Library.Multiset"
begin

unbundle bit_operations_syntax

section \<open>The integer pipeline of train\_mnist.py\<close>

text \<open>
  The embedding covers the integer parts of \<^verbatim>\<open>src/python/train_mnist.py\<close>: the shift
  search \<^verbatim>\<open>find_shift_for_max\<close>, the three calibration passes of
  \<^verbatim>\<open>calibrate_shift\<close>, the per-sample body of \<^verbatim>\<open>verify_int8_inference\<close> and the
  2-bit packing loop of \<^verbatim>\<open>export_weights_header\<close>.

  Python's unbounded integers are \<open>int\<close>. A NumPy \<^verbatim>\<open>int8\<close> or \<^verbatim>\<open>int32\<close> value is an
  \<open>int\<close> too, and every NumPy operation that can wrap around has the wrap written out
  (\<open>i32\<close>, \<open>astype_int8\<close>). A one-dimensional array is a list, a matrix is the list of
  its rows, and a raised exception is the \<open>Inl\<close> branch of a sum.

  The floating-point steps (the ternary quantiser and the scaling of a pixel by 127)
  are outside the embedding: the weight matrices \<open>w1\<close>, \<open>w2\<close>, \<open>w3\<close> are the
  \<^verbatim>\<open>int8\<close> arrays that \<^verbatim>\<open>ternary_quantize(...).numpy().astype(np.int8)\<close> yields, and a
  batch of the loader is the \<^verbatim>\<open>int8\<close> array \<^verbatim>\<open>acts\<close> of line 125.
\<close>

datatype py_error = ValueError | IndexError | RuntimeError

subsection \<open>NumPy integers\<close>

text \<open>Two's complement wrap-around to 32 and to 8 bits.\<close>

definition i32 :: "int \<Rightarrow> int" where
  "i32 v = signed_take_bit 31 v"

definition astype_int32 :: "int \<Rightarrow> int" where
  "astype_int32 v = i32 v"

definition astype_int8 :: "int \<Rightarrow> int" where
  "astype_int8 v = signed_take_bit 7 v"

text \<open>\<^verbatim>\<open>x.clip(-128, 127)\<close>.\<close>

definition clip_i8 :: "int \<Rightarrow> int" where
  "clip_i8 v = min (max v (- 128)) 127"

text \<open>\<^verbatim>\<open>np.abs\<close> on an \<^verbatim>\<open>int32\<close>: the absolute value of the least value wraps.\<close>

definition np_abs_i32 :: "int \<Rightarrow> int" where
  "np_abs_i32 v = i32 \<bar>v\<bar>"

text \<open>\<^verbatim>\<open>np.max\<close>: raises \<^verbatim>\<open>ValueError\<close> on an array of size zero.\<close>

definition np_max :: "int list \<Rightarrow> py_error + int" where
  "np_max xs = (case xs of [] \<Rightarrow> Inl ValueError | x # rest \<Rightarrow> Inr (fold max rest x))"

text \<open>\<^verbatim>\<open>np.argmax\<close>: the first index of the greatest element, \<^verbatim>\<open>ValueError\<close> on an
  empty array.\<close>

fun first_index :: "int list \<Rightarrow> int \<Rightarrow> nat" where
  "first_index [] v = 0"
| "first_index (x # xs) v = (if x = v then 0 else Suc (first_index xs v))"

definition np_argmax :: "int list \<Rightarrow> py_error + nat" where
  "np_argmax xs =
     (case xs of [] \<Rightarrow> Inl ValueError | x # rest \<Rightarrow> Inr (first_index xs (fold max rest x)))"

text \<open>The \<^verbatim>\<open>int32\<close> dot product of a row and a vector: every product and every
  partial sum wraps to 32 bits.\<close>

definition dot_i32 :: "int list \<Rightarrow> int list \<Rightarrow> int" where
  "dot_i32 row a = foldl (\<lambda>acc (wv, av). i32 (acc + i32 (wv * av))) 0 (zip row a)"

text \<open>\<^verbatim>\<open>w @ a\<close> for a matrix and a vector of \<^verbatim>\<open>int32\<close>: \<^verbatim>\<open>ValueError\<close> when the
  width of the matrix is not the length of the vector.\<close>

definition matmul_i32 :: "int list list \<Rightarrow> int list \<Rightarrow> py_error + int list" where
  "matmul_i32 w a =
     (if list_all (\<lambda>row. length row = length a) w
      then Inr (map (\<lambda>row. dot_i32 row a) w)
      else Inl ValueError)"

text \<open>\<^verbatim>\<open>w.astype(np.int32) @ a.astype(np.int32)\<close>, the accumulators of one layer.\<close>

definition layer_acc :: "int list list \<Rightarrow> int list \<Rightarrow> py_error + int list" where
  "layer_acc w a = matmul_i32 (map (map astype_int32) w) (map astype_int32 a)"

subsection \<open>find\_shift\_for\_max (lines 166 to 173)\<close>

text \<open>The \<^verbatim>\<open>while\<close> loop of line 171; not returning is the value \<open>None\<close>.
  \<^verbatim>\<open>max_val >> shift\<close> is \<open>drop_bit shift max_val\<close>, the floor of
  \<open>max_val / 2 ^ shift\<close>.\<close>

partial_function (option) find_shift_loop :: "int \<Rightarrow> nat \<Rightarrow> nat option" where
  "find_shift_loop max_val shift =
     (if drop_bit shift max_val > 127 then find_shift_loop max_val (shift + 1)
      else Some shift)"

declare find_shift_loop.simps [code]

definition find_shift_for_max :: "int \<Rightarrow> nat option" where
  "find_shift_for_max max_val =
     (if max_val = 0 then Some 0 else find_shift_loop max_val 0)"

subsection \<open>calibrate\_shift (lines 107 to 163)\<close>

text \<open>\<^verbatim>\<open>collect_int8_inputs\<close> (lines 119 to 127). The loader is the list of its
  batches, each the list of its \<^verbatim>\<open>int8\<close> sample rows. For a batch of no samples
  \<^verbatim>\<open>data.view(data.size(0), -1)\<close> raises \<^verbatim>\<open>RuntimeError\<close> (the size \<open>-1\<close> stands
  for is ambiguous for a tensor of 0 elements); \<^verbatim>\<open>np.concatenate\<close> raises
  \<^verbatim>\<open>ValueError\<close> on an empty list of arrays and on arrays of different widths.\<close>

definition np_concatenate :: "int list list list \<Rightarrow> py_error + int list list" where
  "np_concatenate arrays =
     (if arrays = [] then Inl ValueError
      else (case concat arrays of [] \<Rightarrow> Inr []
            | r # rest \<Rightarrow>
                if list_all (\<lambda>x. length x = length r) rest then Inr (r # rest)
                else Inl ValueError))"

definition collect_int8_inputs :: "int list list list \<Rightarrow> py_error + int list list" where
  "collect_int8_inputs loader =
     (if list_ex (\<lambda>batch. batch = []) loader then Inl RuntimeError
      else np_concatenate loader)"

text \<open>\<^verbatim>\<open>np.maximum((acc >> s).clip(-128, 127), 0).astype(np.int8)\<close> (lines 142, 151
  and 153).\<close>

definition calib_out :: "nat \<Rightarrow> int list \<Rightarrow> int list" where
  "calib_out s acc = map (\<lambda>v. astype_int8 (max (clip_i8 (drop_bit s v)) 0)) acc"

text \<open>The accumulators of a sample at layers 1, 2 and 3, as the bodies of the three
  passes compute them (lines 134, 141 to 143 and 150 to 154).\<close>

definition acc1_of :: "int list list \<Rightarrow> int list \<Rightarrow> py_error + int list" where
  "acc1_of w1 a = layer_acc w1 a"

definition acc2_of ::
  "int list list \<Rightarrow> nat \<Rightarrow> int list list \<Rightarrow> int list \<Rightarrow> py_error + int list" where
  "acc2_of w1 s1 w2 a =
     (case layer_acc w1 a of Inl e \<Rightarrow> Inl e
      | Inr acc1 \<Rightarrow> layer_acc w2 (calib_out s1 acc1))"

definition acc3_of ::
  "int list list \<Rightarrow> nat \<Rightarrow> int list list \<Rightarrow> nat \<Rightarrow> int list list \<Rightarrow> int list
     \<Rightarrow> py_error + int list" where
  "acc3_of w1 s1 w2 s2 w3 a =
     (case layer_acc w1 a of Inl e \<Rightarrow> Inl e
      | Inr acc1 \<Rightarrow>
          (case layer_acc w2 (calib_out s1 acc1) of Inl e \<Rightarrow> Inl e
           | Inr acc2 \<Rightarrow> layer_acc w3 (calib_out s2 acc2)))"

text \<open>The loop of one pass: \<^verbatim>\<open>for a in all_inputs: acc = ...;
  max_acc = max(max_acc, np.max(np.abs(acc)))\<close>. The three passes differ in the
  accumulator \<open>layer\<close> only.\<close>

fun max_abs_loop ::
  "(int list \<Rightarrow> py_error + int list) \<Rightarrow> int list list \<Rightarrow> int \<Rightarrow> py_error + int" where
  "max_abs_loop layer [] max_acc = Inr max_acc"
| "max_abs_loop layer (a # rest) max_acc =
     (case layer a of Inl e \<Rightarrow> Inl e
      | Inr acc \<Rightarrow>
          (case np_max (map np_abs_i32 acc) of Inl e \<Rightarrow> Inl e
           | Inr mx \<Rightarrow> max_abs_loop layer rest (max max_acc mx)))"

definition calibrate_shift ::
  "int list list \<Rightarrow> int list list \<Rightarrow> int list list \<Rightarrow> int list list list
     \<Rightarrow> (py_error + nat list) option" where
  "calibrate_shift w1 w2 w3 cal_loader =
     (case collect_int8_inputs cal_loader of Inl e \<Rightarrow> Some (Inl e)
      | Inr all_inputs \<Rightarrow>
     (case max_abs_loop (acc1_of w1) all_inputs 0 of Inl e \<Rightarrow> Some (Inl e)
      | Inr max_acc1 \<Rightarrow>
     (case find_shift_for_max max_acc1 of None \<Rightarrow> None
      | Some s1 \<Rightarrow>
     (case max_abs_loop (acc2_of w1 s1 w2) all_inputs 0 of Inl e \<Rightarrow> Some (Inl e)
      | Inr max_acc2 \<Rightarrow>
     (case find_shift_for_max max_acc2 of None \<Rightarrow> None
      | Some s2 \<Rightarrow>
     (case max_abs_loop (acc3_of w1 s1 w2 s2 w3) all_inputs 0 of Inl e \<Rightarrow> Some (Inl e)
      | Inr max_acc3 \<Rightarrow>
     (case find_shift_for_max max_acc3 of None \<Rightarrow> None
      | Some s3 \<Rightarrow> Some (Inr [s1, s2, s3]))))))))"

subsection \<open>verify\_int8\_inference (lines 363 to 400)\<close>

text \<open>\<^verbatim>\<open>shifts[i]\<close> on a Python list: \<^verbatim>\<open>IndexError\<close> past its end.\<close>

definition getitem :: "'a list \<Rightarrow> nat \<Rightarrow> py_error + 'a" where
  "getitem xs i = (if i < length xs then Inr (xs ! i) else Inl IndexError)"

text \<open>\<^verbatim>\<open>(acc >> s).clip(-128, 127).astype(np.int8)\<close> (lines 382, 387 and 392).\<close>

definition requant :: "nat \<Rightarrow> int list \<Rightarrow> int list" where
  "requant s acc = map (\<lambda>v. astype_int8 (clip_i8 (drop_bit s v))) acc"

text \<open>\<^verbatim>\<open>np.maximum(out, 0).astype(np.int8)\<close>, the ReLU of lines 383 and 388.\<close>

definition relu_int8 :: "int list \<Rightarrow> int list" where
  "relu_int8 out = map (\<lambda>v. astype_int8 (max v 0)) out"

text \<open>One hidden layer of the loop body (lines 381 to 383, and 386 to 388): the
  accumulators, then the shift \<^verbatim>\<open>shifts[l]\<close>, the clamp and the ReLU.\<close>

definition hidden_layer ::
  "int list list \<Rightarrow> nat list \<Rightarrow> nat \<Rightarrow> int list \<Rightarrow> py_error + int list" where
  "hidden_layer w shifts l a =
     (case layer_acc w a of Inl e \<Rightarrow> Inl e
      | Inr acc \<Rightarrow>
          (case getitem shifts l of Inl e \<Rightarrow> Inl e
           | Inr s \<Rightarrow> Inr (relu_int8 (requant s acc))))"

text \<open>\<^verbatim>\<open>acc3\<close> of line 391, the accumulators of the final layer for the sample
  \<open>a\<close>.\<close>

definition int8_acc3 ::
  "int list list \<Rightarrow> int list list \<Rightarrow> int list list \<Rightarrow> nat list \<Rightarrow> int list
     \<Rightarrow> py_error + int list" where
  "int8_acc3 w1 w2 w3 shifts a =
     (case hidden_layer w1 shifts 0 a of Inl e \<Rightarrow> Inl e
      | Inr out1 \<Rightarrow>
          (case hidden_layer w2 shifts 1 out1 of Inl e \<Rightarrow> Inl e
           | Inr out2 \<Rightarrow> layer_acc w3 out2))"

text \<open>\<^verbatim>\<open>pred\<close> of line 394: \<^verbatim>\<open>out3 = (acc3 >> shifts[2]).clip(-128, 127)
  .astype(np.int8)\<close> and \<^verbatim>\<open>pred = np.argmax(out3)\<close>.\<close>

definition int8_pred ::
  "int list list \<Rightarrow> int list list \<Rightarrow> int list list \<Rightarrow> nat list \<Rightarrow> int list
     \<Rightarrow> py_error + nat" where
  "int8_pred w1 w2 w3 shifts a =
     (case int8_acc3 w1 w2 w3 shifts a of Inl e \<Rightarrow> Inl e
      | Inr acc3 \<Rightarrow>
          (case getitem shifts 2 of Inl e \<Rightarrow> Inl e
           | Inr s \<Rightarrow> np_argmax (requant s acc3)))"

subsection \<open>The packing loop of export\_weights\_header (lines 216 to 236)\<close>

definition tiles_per_row :: "nat \<Rightarrow> nat" where
  "tiles_per_row k = (k + 127) div 128"

text \<open>\<^verbatim>\<open>w[row, col]\<close> on a two-dimensional array, for indices that are not
  negative: \<^verbatim>\<open>IndexError\<close> outside the array.\<close>

definition getitem2 :: "int list list \<Rightarrow> nat \<Rightarrow> nat \<Rightarrow> py_error + int" where
  "getitem2 w row col =
     (if row < length w \<and> col < length (w ! row) then Inr (w ! row ! col)
      else Inl IndexError)"

text \<open>The encoding of lines 229 to 234.\<close>

definition enc_of :: "int \<Rightarrow> int" where
  "enc_of val = (if val = 1 then 1 else if val = - 1 then 2 else 0)"

text \<open>A \<^verbatim>\<open>for\<close> loop over a list with a state, stopping at the first exception.\<close>

fun for_each :: "('s \<Rightarrow> 'a \<Rightarrow> py_error + 's) \<Rightarrow> 'a list \<Rightarrow> 's \<Rightarrow> py_error + 's" where
  "for_each body [] s = Inr s"
| "for_each body (x # xs) s =
     (case body s x of Inl e \<Rightarrow> Inl e | Inr s' \<Rightarrow> for_each body xs s')"

text \<open>The body of the innermost loop (lines 227 to 235):
  \<^verbatim>\<open>packed[i // 16] |= enc << ((i % 16) * 2)\<close> on Python integers.\<close>

definition pack_step ::
  "int list list \<Rightarrow> nat \<Rightarrow> nat \<Rightarrow> nat \<Rightarrow> int list \<Rightarrow> nat \<Rightarrow> py_error + int list" where
  "pack_step w k row tile packed i =
     (let col = tile * 128 + i in
      case (if col < k then getitem2 w row col else Inr 0) of
        Inl e \<Rightarrow> Inl e
      | Inr val \<Rightarrow>
          Inr (packed[i div 16 :=
                 (packed ! (i div 16)) OR push_bit ((i mod 16) * 2) (enc_of val)]))"

text \<open>One tile (lines 225 to 235), the tiles of one row appended to \<^verbatim>\<open>word_list\<close>
  (lines 224 to 236), and all rows (lines 222 to 236).\<close>

definition pack_tile :: "int list list \<Rightarrow> nat \<Rightarrow> nat \<Rightarrow> nat \<Rightarrow> py_error + int list" where
  "pack_tile w k row tile = for_each (pack_step w k row tile) [0..<128] [0, 0, 0, 0, 0, 0, 0, 0]"

definition pack_row :: "int list list \<Rightarrow> nat \<Rightarrow> int list \<Rightarrow> nat \<Rightarrow> py_error + int list" where
  "pack_row w k word_list row =
     for_each (\<lambda>word_list tile.
         case pack_tile w k row tile of Inl e \<Rightarrow> Inl e
         | Inr packed \<Rightarrow> Inr (word_list @ packed))
       [0..<tiles_per_row k] word_list"

definition pack_weights :: "int list list \<Rightarrow> nat \<Rightarrow> nat \<Rightarrow> py_error + int list" where
  "pack_weights w k m = for_each (pack_row w k) [0..<m] []"

subsection \<open>The decoder of the packed format\<close>

text \<open>The 2-bit field at position \<open>j\<close> of a word (bits \<open>2 j\<close> and \<open>2 j + 1\<close>).\<close>

definition field2 :: "int \<Rightarrow> nat \<Rightarrow> int" where
  "field2 word j = take_bit 2 (drop_bit (j * 2) word)"

text \<open>Modelled from the spec: the decoder of the packed format is not part of
  \<^verbatim>\<open>train_mnist.py\<close> (the accelerator reads the packed words). \<open>decode2\<close> is the
  inverse of the encoding table of section 4.4: bits \<open>01\<close> are the weight +1, bits
  \<open>10\<close> the weight -1, bits \<open>00\<close> the weight 0; the table has no entry for \<open>11\<close>.\<close>

definition decode2 :: "int \<Rightarrow> int option" where
  "decode2 bits =
     (if bits = 1 then Some 1 else if bits = 2 then Some (- 1)
      else if bits = 0 then Some 0 else None)"

text \<open>Modelled from the spec: the 128 positions of one tile of 8 words, position \<open>i\<close>
  in word \<open>i div 16\<close> at bit offset \<open>(i mod 16) * 2\<close>.\<close>

definition decode_tile :: "int list \<Rightarrow> int option list" where
  "decode_tile ws = map (\<lambda>i. decode2 (field2 (ws ! (i div 16)) (i mod 16))) [0..<128]"

text \<open>Modelled from the spec: a row is its \<open>tiles_per_row k\<close> tiles in order, truncated
  to \<open>k\<close> columns (the padding of a ragged last tile is discarded).\<close>

definition unpack_row :: "nat \<Rightarrow> int list \<Rightarrow> int list option" where
  "unpack_row k ws =
     those (take k (concat (map (\<lambda>tile. decode_tile (take 8 (drop (tile * 8) ws)))
                             [0..<tiles_per_row k])))"

text \<open>Modelled from the spec: a packed block of \<open>m\<close> rows is
  \<open>m * tiles_per_row k * 8\<close> words, the rows in row-major order,
  \<open>tiles_per_row k * 8\<close> words each.\<close>

definition unpack_weights :: "nat \<Rightarrow> nat \<Rightarrow> int list \<Rightarrow> int list list option" where
  "unpack_weights k m words =
     (if length words = m * (tiles_per_row k * 8)
      then those (map (\<lambda>row. unpack_row k (take (tiles_per_row k * 8)
                                        (drop (row * (tiles_per_row k * 8)) words)))
                      [0..<m])
      else None)"

subsection \<open>Predicates of the statements\<close>

text \<open>The value ranges of the data model: a ternary row and matrix, a vector of
  \<^verbatim>\<open>int8\<close> values, an \<open>m\<close> by \<open>k\<close> matrix.\<close>

definition ternary_row :: "int list \<Rightarrow> bool" where
  "ternary_row row = list_all (\<lambda>x. x = - 1 \<or> x = 0 \<or> x = 1) row"

definition ternary_matrix :: "int list list \<Rightarrow> bool" where
  "ternary_matrix w = list_all ternary_row w"

definition int8_vec :: "int list \<Rightarrow> bool" where
  "int8_vec a = list_all (\<lambda>x. - 128 \<le> x \<and> x \<le> 127) a"

definition matrix_shape :: "int list list \<Rightarrow> nat \<Rightarrow> nat \<Rightarrow> bool" where
  "matrix_shape w m k \<longleftrightarrow> length w = m \<and> list_all (\<lambda>row. length row = k) w"

text \<open>The dot product over the integers, without any wrap-around.\<close>

definition exact_dot :: "int list \<Rightarrow> int list \<Rightarrow> int" where
  "exact_dot row a = sum_list (map (\<lambda>(wv, av). wv * av) (zip row a))"

text \<open>An accumulator that lies in \<open>[-128, 127]\<close> after the arithmetic right shift by
  \<open>s\<close>.\<close>

definition in_int8_after_shift :: "nat \<Rightarrow> int \<Rightarrow> bool" where
  "in_int8_after_shift s v \<longleftrightarrow> - 128 \<le> drop_bit s v \<and> drop_bit s v \<le> 127"

text \<open>A packed word of 32 bits none of whose sixteen 2-bit fields is \<open>11\<close>.\<close>

definition valid_packed_word :: "int \<Rightarrow> bool" where
  "valid_packed_word word \<longleftrightarrow>
     0 \<le> word \<and> word < 2 ^ 32
     \<and> list_all (\<lambda>j. field2 word j = 0 \<or> field2 word j = 1 \<or> field2 word j = 2) [0..<16]"

subsection \<open>Auxiliary notions of the proofs\<close>

text \<open>What one sample contributes to the running maximum of a pass.\<close>

definition sample_max :: "(int list \<Rightarrow> py_error + int list) \<Rightarrow> int list \<Rightarrow> py_error + int" where
  "sample_max layer a =
     (case layer a of Inl e \<Rightarrow> Inl e | Inr acc \<Rightarrow> np_max (map np_abs_i32 acc))"

definition only_value_errors :: "(int list \<Rightarrow> py_error + int list) \<Rightarrow> bool" where
  "only_value_errors layer \<longleftrightarrow> (\<forall>a e. layer a = Inl e \<longrightarrow> e = ValueError)"

text \<open>The weight the packer reads at a column (0 in the padding), and the state of
  \<^verbatim>\<open>packed\<close> after the first \<open>n\<close> positions of a tile.\<close>

definition padded_val :: "int list list \<Rightarrow> nat \<Rightarrow> nat \<Rightarrow> nat \<Rightarrow> int" where
  "padded_val w k row col = (if col < k then w ! row ! col else 0)"

definition tile_inv ::
  "int list list \<Rightarrow> nat \<Rightarrow> nat \<Rightarrow> nat \<Rightarrow> nat \<Rightarrow> int list \<Rightarrow> bool" where
  "tile_inv w k row tile n p \<longleftrightarrow>
     length p = 8
     \<and> (\<forall>j<128. field2 (p ! (j div 16)) (j mod 16)
           = (if j < n then enc_of (padded_val w k row (tile * 128 + j)) else 0))
     \<and> (\<forall>q<8. take_bit 32 (p ! q) = p ! q)"

definition tile_words :: "int list list \<Rightarrow> nat \<Rightarrow> nat \<Rightarrow> nat \<Rightarrow> int list" where
  "tile_words w k row tile = projr (pack_tile w k row tile)"

definition row_words :: "int list list \<Rightarrow> nat \<Rightarrow> nat \<Rightarrow> int list" where
  "row_words w k row = concat (map (tile_words w k row) [0..<tiles_per_row k])"

subsection \<open>Example data\<close>

text \<open>Small weight matrices and loaders on which the theorems are run.\<close>

definition ex_w1 :: "int list list" where
  "ex_w1 = [[1, - 1, 1], [- 1, - 1, 0]]"

definition ex_w2 :: "int list list" where
  "ex_w2 = [[1, 1], [1, 0], [- 1, 1]]"

definition ex_w3 :: "int list list" where
  "ex_w3 = [[1, 1, 1], [1, 0, - 1]]"

definition ex_loader :: "int list list list" where
  "ex_loader = [[[127, - 128, 100], [3, 4, 5]], [[- 128, 127, - 128]]]"

definition ex_loader_permuted :: "int list list list" where
  "ex_loader_permuted = [[[- 128, 127, - 128], [127, - 128, 100]], [[3, 4, 5]]]"

definition tie_w12 :: "int list list" where
  "tie_w12 = [[1, 0], [0, 1]]"

definition tie_w3 :: "int list list" where
  "tie_w3 = [[1, 0], [1, 1], [0, 0], [0, 0], [0, 0], [0, 0], [0, 0], [0, 0], [0, 0], [0, 0]]"

section \<open>Exact accumulation in 32 bits\<close>

lemma i32_id: "- (2 ^ 31) \<le> v \<Longrightarrow> v < 2 ^ 31 \<Longrightarrow> i32 v = v"
  by (simp add: i32_def signed_take_bit_int_eq_self)

lemma astype_int8_id: "- 128 \<le> v \<Longrightarrow> v \<le> 127 \<Longrightarrow> astype_int8 v = v"
  by (simp add: astype_int8_def signed_take_bit_int_eq_self)

lemma prod_bound:
  fixes wv av b :: int
  assumes "\<bar>wv\<bar> \<le> 1" "\<bar>av\<bar> \<le> b"
  shows "\<bar>wv * av\<bar> \<le> b"
proof -
  have "\<bar>wv * av\<bar> = \<bar>wv\<bar> * \<bar>av\<bar>" by (simp add: abs_mult)
  also have "\<dots> \<le> 1 * b"
    using assms by (intro mult_mono) auto
  finally show ?thesis by simp
qed

lemma sum_products_bound:
  assumes "list_all (\<lambda>(wv, av). \<bar>wv\<bar> \<le> 1 \<and> \<bar>av\<bar> \<le> b) ps"
  shows "\<bar>sum_list (map (\<lambda>(wv, av). wv * av) ps)\<bar> \<le> int (length ps) * b"
  using assms
proof (induction ps)
  case Nil
  then show ?case by simp
next
  case (Cons p ps)
  obtain wv av where p: "p = (wv, av)" by (cases p)
  from Cons.prems p have "\<bar>wv * av\<bar> \<le> b" by (simp add: prod_bound)
  moreover from Cons have "\<bar>sum_list (map (\<lambda>(wv, av). wv * av) ps)\<bar> \<le> int (length ps) * b"
    by simp
  ultimately show ?case using p by (simp add: algebra_simps)
qed

lemma fold_i32_exact:
  assumes "list_all (\<lambda>(wv, av). \<bar>wv\<bar> \<le> 1 \<and> \<bar>av\<bar> \<le> b) ps"
    and "\<bar>acc\<bar> + int (length ps) * b < 2 ^ 31"
  shows "foldl (\<lambda>acc (wv, av). i32 (acc + i32 (wv * av))) acc ps
           = acc + sum_list (map (\<lambda>(wv, av). wv * av) ps)"
  using assms
proof (induction ps arbitrary: acc)
  case Nil
  then show ?case by simp
next
  case (Cons p ps)
  obtain wv av where p: "p = (wv, av)" by (cases p)
  from Cons.prems(1) p have pb: "\<bar>wv * av\<bar> \<le> b" by (simp add: prod_bound)
  have b0: "0 \<le> b" using pb by linarith
  have n0: "0 \<le> int (length ps) * b" using b0 by simp
  have r: "\<bar>acc\<bar> + b + int (length ps) * b < 2 ^ 31"
    using Cons.prems(2) by (simp add: algebra_simps)
  have "i32 (wv * av) = wv * av"
    using pb r n0 by (intro i32_id) linarith+
  moreover have "i32 (acc + wv * av) = acc + wv * av"
    using pb r n0 by (intro i32_id) linarith+
  moreover have "\<bar>acc + wv * av\<bar> + int (length ps) * b < 2 ^ 31"
    using pb r by linarith
  moreover from Cons.prems(1) have "list_all (\<lambda>(wv, av). \<bar>wv\<bar> \<le> 1 \<and> \<bar>av\<bar> \<le> b) ps"
    by simp
  ultimately show ?case
    using Cons.IH [of "acc + wv * av"] p by simp
qed

lemma zip_bounded:
  assumes "list_all (\<lambda>x. \<bar>x\<bar> \<le> 1) row" "list_all (\<lambda>x. \<bar>x\<bar> \<le> b) a"
  shows "list_all (\<lambda>(wv, av). \<bar>wv\<bar> \<le> 1 \<and> \<bar>av\<bar> \<le> b) (zip row a)"
  using assms by (auto simp: list_all_iff dest: set_zip_leftD set_zip_rightD)

lemma dot_i32_exact:
  assumes "list_all (\<lambda>x. \<bar>x\<bar> \<le> 1) row" "list_all (\<lambda>x. \<bar>x\<bar> \<le> b) a"
    and "int (length a) * b < 2 ^ 31" "0 \<le> b"
  shows "dot_i32 row a = exact_dot row a"
    and "\<bar>exact_dot row a\<bar> \<le> int (length a) * b"
proof -
  let ?ps = "zip row a"
  have la: "list_all (\<lambda>(wv, av). \<bar>wv\<bar> \<le> 1 \<and> \<bar>av\<bar> \<le> b) ?ps"
    using assms(1,2) by (rule zip_bounded)
  have len: "int (length ?ps) * b \<le> int (length a) * b"
    using assms(4) by (intro mult_right_mono) auto
  then have "\<bar>0::int\<bar> + int (length ?ps) * b < 2 ^ 31"
    using assms(3) by simp
  from fold_i32_exact [OF la this] show "dot_i32 row a = exact_dot row a"
    by (simp add: dot_i32_def exact_dot_def)
  from sum_products_bound [OF la] len show "\<bar>exact_dot row a\<bar> \<le> int (length a) * b"
    by (simp add: exact_dot_def)
qed

lemma ternary_abs: "ternary_row row \<Longrightarrow> list_all (\<lambda>x. \<bar>x\<bar> \<le> 1) row"
  by (auto simp: ternary_row_def list_all_iff)

lemma int8_abs: "int8_vec a \<Longrightarrow> list_all (\<lambda>x. \<bar>x\<bar> \<le> 128) a"
  by (auto simp: int8_vec_def list_all_iff)

lemma astype_int32_ternary: "ternary_row row \<Longrightarrow> map astype_int32 row = row"
  by (rule map_idI) (auto simp: ternary_row_def list_all_iff astype_int32_def intro!: i32_id)

lemma astype_int32_int8: "int8_vec a \<Longrightarrow> map astype_int32 a = a"
  by (rule map_idI) (auto simp: int8_vec_def list_all_iff astype_int32_def intro!: i32_id)

text \<open>
  C8, as amended (accumulator exactness and bound). For a row with elements in
  \<open>{-1, 0, 1}\<close> and an activation vector of the same length \<open>K \<le> 784\<close> with elements
  in \<open>[-128, 127]\<close>, the \<^verbatim>\<open>int32\<close> dot product equals the dot product over the
  integers; its magnitude is at most \<open>K * 128\<close>, and at most \<open>K * 127\<close> when no
  activation is \<open>-128\<close>; and no partial sum overflows: after every prefix the
  wrapped sum is the exact one, strictly between \<open>-2 ^ 31\<close> and \<open>2 ^ 31\<close>.
\<close>

theorem accumulator_exact_and_bounded:
  assumes "ternary_row row" "int8_vec a" "length row = length a" "length a \<le> 784"
  shows "dot_i32 (map astype_int32 row) (map astype_int32 a) = exact_dot row a
       \<and> \<bar>exact_dot row a\<bar> \<le> int (length a) * 128
       \<and> (list_all (\<lambda>x. - 127 \<le> x) a \<longrightarrow> \<bar>exact_dot row a\<bar> \<le> int (length a) * 127)
       \<and> (\<forall>n. dot_i32 (map astype_int32 (take n row)) (map astype_int32 (take n a))
                 = exact_dot (take n row) (take n a)
              \<and> - (2 ^ 31) < exact_dot (take n row) (take n a)
              \<and> exact_dot (take n row) (take n a) < 2 ^ 31)"
proof -
  have prefix: "dot_i32 (map astype_int32 (take n row)) (map astype_int32 (take n a))
                 = exact_dot (take n row) (take n a)
              \<and> \<bar>exact_dot (take n row) (take n a)\<bar> \<le> int (length a) * 128" for n
  proof -
    have t: "ternary_row (take n row)"
      using assms(1) by (auto simp: ternary_row_def list_all_iff dest: in_set_takeD)
    have i: "int8_vec (take n a)"
      using assms(2) by (auto simp: int8_vec_def list_all_iff dest: in_set_takeD)
    have small: "int (length (take n a)) * 128 < 2 ^ 31"
      using assms(4) by simp
    note e = dot_i32_exact [OF ternary_abs [OF t] int8_abs [OF i] small]
    have "int (length (take n a)) * 128 \<le> int (length a) * 128" by simp
    with e show ?thesis
      by (simp add: astype_int32_ternary [OF t] astype_int32_int8 [OF i])
  qed
  have small: "int (length a) * 128 < 2 ^ 31"
    using assms(4) by simp
  have full: "dot_i32 (map astype_int32 row) (map astype_int32 a) = exact_dot row a
       \<and> \<bar>exact_dot row a\<bar> \<le> int (length a) * 128"
    using prefix [of "length a"] assms(3) by simp
  have tight: "\<bar>exact_dot row a\<bar> \<le> int (length a) * 127" if "list_all (\<lambda>x. - 127 \<le> x) a"
  proof -
    from that assms(2) have "list_all (\<lambda>x. \<bar>x\<bar> \<le> 127) a"
      by (fastforce simp: int8_vec_def list_all_iff abs_le_iff)
    from dot_i32_exact(2) [OF ternary_abs [OF assms(1)] this] assms(4)
    show ?thesis by simp
  qed
  have "- (2 ^ 31) < exact_dot (take n row) (take n a)
      \<and> exact_dot (take n row) (take n a) < 2 ^ 31" for n
    using prefix [of n] small by linarith
  with prefix full tight show ?thesis by blast
qed

text \<open>
  The theorem at the row \<open>[1, -1, 0, 1]\<close> with the activations \<open>[10, 20, 30, 40]\<close>, and at a
  row whose accumulator \<open>-256\<close> reaches the bound \<open>2 * 128\<close>.
\<close>

theorem accumulator_exact_and_bounded_witness:
  "ternary_row [1, - 1, 0, 1] \<and> int8_vec [10, 20, 30, 40]
     \<and> dot_i32 (map astype_int32 [1, - 1, 0, 1]) (map astype_int32 [10, 20, 30, 40]) = 30
     \<and> exact_dot [1, - 1, 0, 1] [10, 20, 30, 40] = 30
     \<and> list_all (\<lambda>x. - 127 \<le> x) [10, 20, 30, 40 :: int]
     \<and> \<bar>exact_dot [1, - 1, 0, 1] [10, 20, 30, 40]\<bar> \<le> int (length [10, 20, 30, 40 :: int]) * 127
     \<and> ternary_row [1, 1] \<and> int8_vec [- 128, - 128]
     \<and> dot_i32 (map astype_int32 [1, 1]) (map astype_int32 [- 128, - 128]) = - 256"
proof -
  have h: "ternary_row [1, - 1, 0, 1]" "int8_vec [10, 20, 30, 40]"
    "length [1, - 1, 0, 1 :: int] = length [10, 20, 30, 40 :: int]"
    "length [10, 20, 30, 40 :: int] \<le> 784"
    by (simp_all add: ternary_row_def int8_vec_def)
  have e: "exact_dot [1, - 1, 0, 1] [10, 20, 30, 40] = 30"
    by (simp add: exact_dot_def)
  have g: "ternary_row [1, 1]" "int8_vec [- 128, - 128]"
    "length [1, 1 :: int] = length [- 128, - 128 :: int]" "length [- 128, - 128 :: int] \<le> 784"
    by (simp_all add: ternary_row_def int8_vec_def)
  have f: "exact_dot [1, 1] [- 128, - 128] = - 256"
    by (simp add: exact_dot_def)
  have n: "list_all (\<lambda>x. - 127 \<le> x) [10, 20, 30, 40 :: int]"
    by simp
  from accumulator_exact_and_bounded [OF h] e n
  have "dot_i32 (map astype_int32 [1, - 1, 0, 1]) (map astype_int32 [10, 20, 30, 40]) = 30
      \<and> \<bar>exact_dot [1, - 1, 0, 1] [10, 20, 30, 40]\<bar> \<le> int (length [10, 20, 30, 40 :: int]) * 127"
    by simp
  moreover from accumulator_exact_and_bounded [OF g] f
  have "dot_i32 (map astype_int32 [1, 1]) (map astype_int32 [- 128, - 128]) = - 256"
    by simp
  ultimately show ?thesis using h(1,2) g(1,2) e n by simp
qed

text \<open>
  The bound \<open>K * 127\<close> of C8 as it is stated fails: the row \<open>[1]\<close> and the activation
  \<open>[-128]\<close> give the accumulator \<open>-128\<close>, of magnitude \<open>128 > 1 * 127\<close>.
\<close>

theorem accumulator_bound_counterexample:
  "ternary_row [1] \<and> int8_vec [- 128] \<and> length [- 128 :: int] \<le> 784
     \<and> dot_i32 (map astype_int32 [1]) (map astype_int32 [- 128]) = - 128
     \<and> \<not> \<bar>dot_i32 (map astype_int32 [1]) (map astype_int32 [- 128])\<bar>
           \<le> int (length [- 128 :: int]) * 127"
proof -
  have "dot_i32 (map astype_int32 [1]) (map astype_int32 [- 128]) = - 128"
    by code_simp
  then show ?thesis
    by (simp add: ternary_row_def int8_vec_def)
qed

section \<open>The shift search\<close>

lemma shifted_value_decreases:
  fixes m :: int
  assumes "127 < drop_bit s m"
  shows "drop_bit (Suc s) m < drop_bit s m"
proof -
  have "drop_bit (Suc s) m = drop_bit s m div 2"
    by (simp add: drop_bit_Suc drop_bit_half)
  with assms show ?thesis by linarith
qed

lemma find_shift_loop_returns:
  "\<exists>r. find_shift_loop m s = Some r \<and> s \<le> r \<and> drop_bit r m \<le> 127
       \<and> (\<forall>t. s \<le> t \<and> t < r \<longrightarrow> 127 < drop_bit t m)"
proof (induction "nat (drop_bit s m)" arbitrary: s rule: less_induct)
  case less
  show ?case
  proof (cases "127 < drop_bit s m")
    case False
    then show ?thesis by (subst find_shift_loop.simps) auto
  next
    case True
    then have "nat (drop_bit (Suc s) m) < nat (drop_bit s m)"
      using shifted_value_decreases [of s m] by linarith
    from less [OF this] obtain r where r: "find_shift_loop m (Suc s) = Some r" "Suc s \<le> r"
      "drop_bit r m \<le> 127" "\<forall>t. Suc s \<le> t \<and> t < r \<longrightarrow> 127 < drop_bit t m"
      by blast
    have "find_shift_loop m s = Some r"
      using True r(1) by (subst find_shift_loop.simps) simp
    moreover have "\<forall>t. s \<le> t \<and> t < r \<longrightarrow> 127 < drop_bit t m"
    proof (intro allI impI)
      fix t assume "s \<le> t \<and> t < r"
      then show "127 < drop_bit t m"
        using True r(4) by (cases "t = s") auto
    qed
    ultimately show ?thesis using r(2,3) by auto
  qed
qed

lemma find_shift_for_max_spec:
  "\<exists>s. find_shift_for_max m = Some s \<and> drop_bit s m \<le> 127
       \<and> (\<forall>t. t < s \<longrightarrow> 127 < drop_bit t m)"
proof (cases "m = 0")
  case True
  then show ?thesis by (simp add: find_shift_for_max_def)
next
  case False
  from find_shift_loop_returns [of m 0] obtain r where
    "find_shift_loop m 0 = Some r" "drop_bit r m \<le> 127" "\<forall>t. t < r \<longrightarrow> 127 < drop_bit t m"
    by auto
  with False show ?thesis by (simp add: find_shift_for_max_def)
qed

text \<open>
  C1 (shift minimality). For every maximum accumulator magnitude \<open>m\<close> (no sign
  condition is needed), \<^verbatim>\<open>find_shift_for_max\<close> returns a shift \<open>s\<close> with
  \<open>(m >> s) \<le> 127\<close>; whenever \<open>s > 0\<close> the shift one smaller leaves
  \<open>(m >> (s - 1)) > 127\<close>; and \<open>s = 0\<close> when \<open>m = 0\<close>.
\<close>

theorem find_shift_for_max_minimal:
  "\<exists>s. find_shift_for_max m = Some s \<and> drop_bit s m \<le> 127
       \<and> (0 < s \<longrightarrow> 127 < drop_bit (s - 1) m) \<and> (m = 0 \<longrightarrow> s = 0)"
proof -
  from find_shift_for_max_spec [of m] obtain s where
    s: "find_shift_for_max m = Some s" "drop_bit s m \<le> 127" "\<forall>t. t < s \<longrightarrow> 127 < drop_bit t m"
    by blast
  have "0 < s \<longrightarrow> 127 < drop_bit (s - 1) m"
    using s(3) by auto
  moreover have "m = 0 \<longrightarrow> s = 0"
    using s(1) by (auto simp: find_shift_for_max_def)
  ultimately show ?thesis using s(1,2) by blast
qed

theorem find_shift_for_max_minimal_witness:
  "find_shift_for_max 500 = Some 2 \<and> drop_bit 2 (500 :: int) = 125
     \<and> drop_bit (2 - 1) (500 :: int) = 250 \<and> find_shift_for_max 0 = Some 0"
proof -
  have e: "find_shift_for_max 500 = Some 2" by code_simp
  from find_shift_for_max_minimal [of 500] e
  have "drop_bit 2 (500 :: int) \<le> 127 \<and> 127 < drop_bit (2 - 1) (500 :: int)" by simp
  moreover have "drop_bit 2 (500 :: int) = 125" "drop_bit (2 - 1) (500 :: int) = 250"
    by (simp_all add: drop_bit_eq_div)
  moreover have "find_shift_for_max 0 = Some 0"
    by (simp add: find_shift_for_max_def)
  ultimately show ?thesis using e by simp
qed

text \<open>
  C10 (termination of the shift search). For every integer input the loop of
  \<^verbatim>\<open>find_shift_for_max\<close> returns: while the shifted value \<open>max_val >> shift\<close>
  exceeds 127 it strictly decreases with each increment of \<open>shift\<close>, so a shift
  whose value is at most 127 is reached.
\<close>

theorem find_shift_for_max_terminates:
  "(\<exists>s. find_shift_for_max m = Some s \<and> drop_bit s m \<le> 127)
     \<and> (\<forall>shift. 127 < drop_bit shift m \<longrightarrow> drop_bit (Suc shift) m < drop_bit shift m)"
proof
  show "\<exists>s. find_shift_for_max m = Some s \<and> drop_bit s m \<le> 127"
    using find_shift_for_max_spec [of m] by blast
  show "\<forall>shift. 127 < drop_bit shift m \<longrightarrow> drop_bit (Suc shift) m < drop_bit shift m"
    using shifted_value_decreases by blast
qed

theorem find_shift_for_max_terminates_witness:
  "find_shift_for_max 100352 = Some 10 \<and> drop_bit 10 (100352 :: int) = 98
     \<and> drop_bit (Suc 0) (100352 :: int) < drop_bit 0 (100352 :: int)"
proof -
  have e: "find_shift_for_max 100352 = Some 10" by code_simp
  have big: "127 < drop_bit 0 (100352 :: int)" by simp
  from find_shift_for_max_terminates [of 100352] big
  have "drop_bit (Suc 0) (100352 :: int) < drop_bit 0 (100352 :: int)" by blast
  moreover have "drop_bit 10 (100352 :: int) = 98"
    by (simp add: drop_bit_eq_div)
  ultimately show ?thesis using e by simp
qed

section \<open>The calibration passes\<close>

lemma np_max_upper: "np_max xs = Inr m \<Longrightarrow> x \<in> set xs \<Longrightarrow> x \<le> m"
proof -
  assume a: "np_max xs = Inr m" "x \<in> set xs"
  then obtain y rest where xs: "xs = y # rest" by (cases xs) auto
  have "fold max rest y = Max (set (y # rest))"
    by (rule Max.set_eq_fold [symmetric])
  with a(1) xs have "m = Max (set xs)"
    by (simp add: np_max_def)
  with a(2) show ?thesis by simp
qed

lemma max_abs_loop_lower:
  "max_abs_loop layer xs m0 = Inr mx \<Longrightarrow> m0 \<le> mx"
proof (induction xs arbitrary: m0)
  case Nil
  then show ?case by simp
next
  case (Cons x xs)
  from Cons.prems obtain v where "max_abs_loop layer xs (max m0 v) = Inr mx"
    by (auto split: sum.splits)
  from Cons.IH [OF this] show ?case by simp
qed

lemma max_abs_loop_upper:
  "max_abs_loop layer xs m0 = Inr mx \<Longrightarrow> a \<in> set xs \<Longrightarrow>
     \<exists>v. sample_max layer a = Inr v \<and> v \<le> mx"
proof (induction xs arbitrary: m0)
  case Nil
  then show ?case by simp
next
  case (Cons x xs)
  from Cons.prems(1) obtain acc v where
    s: "layer x = Inr acc" "np_max (map np_abs_i32 acc) = Inr v"
       "max_abs_loop layer xs (max m0 v) = Inr mx"
    by (auto split: sum.splits)
  show ?case
  proof (cases "a = x")
    case True
    from max_abs_loop_lower [OF s(3)] have "v \<le> mx" by simp
    with True s show ?thesis by (simp add: sample_max_def)
  next
    case False
    with Cons.prems(2) have "a \<in> set xs" by simp
    from Cons.IH [OF s(3) this] show ?thesis .
  qed
qed

lemma shifted_in_int8:
  fixes v mx :: int
  assumes "\<bar>v\<bar> \<le> mx" "drop_bit s mx \<le> 127"
  shows "in_int8_after_shift s v"
proof -
  have p: "(0::int) < 2 ^ s" by simp
  have up: "v div 2 ^ s \<le> mx div 2 ^ s"
    using assms(1) by (intro zdiv_mono1) auto
  have "- mx \<le> v" using assms(1) by linarith
  then have "(- mx) div 2 ^ s \<le> v div 2 ^ s"
    by (intro zdiv_mono1) auto
  moreover have "- (mx div 2 ^ s) - 1 \<le> (- mx) div 2 ^ s"
    by (simp add: zdiv_zminus1_eq_if)
  ultimately show ?thesis
    using up assms(2) by (simp add: in_int8_after_shift_def drop_bit_eq_div)
qed

lemma calib_out_int8: "int8_vec (calib_out s acc)"
proof -
  have "- 128 \<le> astype_int8 (max (clip_i8 (drop_bit s v)) 0)
      \<and> astype_int8 (max (clip_i8 (drop_bit s v)) 0) \<le> 127" for v :: int
  proof -
    let ?c = "max (clip_i8 (drop_bit s v)) 0"
    have "0 \<le> ?c" "?c \<le> 127" by (simp_all add: clip_i8_def)
    then show ?thesis by (simp add: astype_int8_id)
  qed
  then show ?thesis by (simp add: int8_vec_def calib_out_def list_all_iff)
qed

lemma length_calib_out: "length (calib_out s acc) = length acc"
  by (simp add: calib_out_def)

lemma layer_acc_Inr_length: "layer_acc w a = Inr acc \<Longrightarrow> length acc = length w"
  by (auto simp: layer_acc_def matmul_i32_def split: if_splits)

lemma layer_acc_abs:
  assumes "ternary_matrix w" "int8_vec a" "length a \<le> 784"
    and "layer_acc w a = Inr acc" "v \<in> set acc"
  shows "np_abs_i32 v = \<bar>v\<bar>"
proof -
  have w: "map (map astype_int32) w = w"
    using assms(1) by (intro map_idI astype_int32_ternary) (simp add: ternary_matrix_def list_all_iff)
  have a: "map astype_int32 a = a"
    using assms(2) by (rule astype_int32_int8)
  from assms(4) have "acc = map (\<lambda>row. dot_i32 row a) w"
    by (auto simp: layer_acc_def w a matmul_i32_def split: if_splits)
  with assms(5) obtain row where row: "row \<in> set w" "v = dot_i32 row a" by auto
  have t: "list_all (\<lambda>x. \<bar>x\<bar> \<le> 1) row"
    using assms(1) row(1) by (intro ternary_abs) (simp add: ternary_matrix_def list_all_iff)
  have small: "int (length a) * 128 < 2 ^ 31"
    using assms(3) by simp
  from dot_i32_exact [OF t int8_abs [OF assms(2)] small]
  have "\<bar>v\<bar> \<le> int (length a) * 128" by (simp add: row(2))
  with small have "- (2 ^ 31) \<le> \<bar>v\<bar>" "\<bar>v\<bar> < 2 ^ 31" by linarith+
  then show ?thesis by (simp add: np_abs_i32_def i32_id)
qed

lemma pass_shift_bound:
  assumes loop: "max_abs_loop layer xs 0 = Inr mx"
    and a: "a \<in> set xs"
    and s: "find_shift_for_max mx = Some s"
    and abs: "\<And>acc v. layer a = Inr acc \<Longrightarrow> v \<in> set acc \<Longrightarrow> np_abs_i32 v = \<bar>v\<bar>"
  shows "\<exists>acc. layer a = Inr acc \<and> list_all (in_int8_after_shift s) acc"
proof -
  from max_abs_loop_upper [OF loop a] obtain v0 where
    v0: "sample_max layer a = Inr v0" "v0 \<le> mx" by blast
  then obtain acc where acc: "layer a = Inr acc" "np_max (map np_abs_i32 acc) = Inr v0"
    by (auto simp: sample_max_def split: sum.splits)
  from find_shift_for_max_spec [of mx] s have sm: "drop_bit s mx \<le> 127" by auto
  have "in_int8_after_shift s v" if "v \<in> set acc" for v
  proof -
    from that have "np_abs_i32 v \<in> set (map np_abs_i32 acc)" by simp
    from np_max_upper [OF acc(2) this] have "np_abs_i32 v \<le> v0" .
    with abs [OF acc(1) that] v0(2) have "\<bar>v\<bar> \<le> mx" by simp
    then show ?thesis using sm by (rule shifted_in_int8)
  qed
  with acc(1) show ?thesis by (simp add: list_all_iff)
qed

text \<open>
  C2 (calibrated-shift range invariant). Let \<^verbatim>\<open>calibrate_shift\<close> return the shifts
  \<open>s1\<close>, \<open>s2\<close>, \<open>s3\<close> on ternary weights, and let \<open>a\<close> be a sample of the calibration
  set, a vector of \<^verbatim>\<open>int8\<close> values. Then every accumulator of \<open>a\<close> at layer 1, at
  layer 2 (under \<open>s1\<close>) and at layer 3 (under \<open>s1\<close> and \<open>s2\<close>), shifted right
  arithmetically by the shift of its layer, lies in \<open>[-128, 127]\<close>; negative
  accumulators included. The widths are at most 784, as in the network
  784, 256, 128, 10.
\<close>

theorem calibrated_shift_range:
  assumes cal: "calibrate_shift w1 w2 w3 cal_loader = Some (Inr [s1, s2, s3])"
    and col: "collect_int8_inputs cal_loader = Inr all_inputs"
    and a: "a \<in> set all_inputs"
    and w: "ternary_matrix w1" "ternary_matrix w2" "ternary_matrix w3"
    and i8: "int8_vec a"
    and dims: "length a \<le> 784" "length w1 \<le> 784" "length w2 \<le> 784"
  shows "\<exists>acc1 acc2 acc3.
           acc1_of w1 a = Inr acc1 \<and> list_all (in_int8_after_shift s1) acc1
         \<and> acc2_of w1 s1 w2 a = Inr acc2 \<and> list_all (in_int8_after_shift s2) acc2
         \<and> acc3_of w1 s1 w2 s2 w3 a = Inr acc3 \<and> list_all (in_int8_after_shift s3) acc3"
proof -
  from cal col obtain m1 m2 m3 where
    p1: "max_abs_loop (acc1_of w1) all_inputs 0 = Inr m1" "find_shift_for_max m1 = Some s1" and
    p2: "max_abs_loop (acc2_of w1 s1 w2) all_inputs 0 = Inr m2" "find_shift_for_max m2 = Some s2" and
    p3: "max_abs_loop (acc3_of w1 s1 w2 s2 w3) all_inputs 0 = Inr m3"
        "find_shift_for_max m3 = Some s3"
    by (auto simp: calibrate_shift_def split: sum.splits option.splits)
  have l1: "\<exists>acc. acc1_of w1 a = Inr acc \<and> list_all (in_int8_after_shift s1) acc"
  proof (rule pass_shift_bound [OF p1(1) a p1(2)])
    fix acc v assume "acc1_of w1 a = Inr acc" "v \<in> set acc"
    then show "np_abs_i32 v = \<bar>v\<bar>"
      using layer_acc_abs [OF w(1) i8 dims(1)] by (simp add: acc1_of_def)
  qed
  have l2: "\<exists>acc. acc2_of w1 s1 w2 a = Inr acc \<and> list_all (in_int8_after_shift s2) acc"
  proof (rule pass_shift_bound [OF p2(1) a p2(2)])
    fix acc v assume h: "acc2_of w1 s1 w2 a = Inr acc" "v \<in> set acc"
    then obtain acc1 where a1: "layer_acc w1 a = Inr acc1"
      "layer_acc w2 (calib_out s1 acc1) = Inr acc"
      by (auto simp: acc2_of_def split: sum.splits)
    have "length (calib_out s1 acc1) \<le> 784"
      using layer_acc_Inr_length [OF a1(1)] dims(2) by (simp add: length_calib_out)
    from layer_acc_abs [OF w(2) calib_out_int8 this a1(2) h(2)]
    show "np_abs_i32 v = \<bar>v\<bar>" .
  qed
  have l3: "\<exists>acc. acc3_of w1 s1 w2 s2 w3 a = Inr acc \<and> list_all (in_int8_after_shift s3) acc"
  proof (rule pass_shift_bound [OF p3(1) a p3(2)])
    fix acc v assume h: "acc3_of w1 s1 w2 s2 w3 a = Inr acc" "v \<in> set acc"
    then obtain acc1 acc2 where a1: "layer_acc w1 a = Inr acc1"
      "layer_acc w2 (calib_out s1 acc1) = Inr acc2"
      "layer_acc w3 (calib_out s2 acc2) = Inr acc"
      by (auto simp: acc3_of_def split: sum.splits)
    have "length (calib_out s2 acc2) \<le> 784"
      using layer_acc_Inr_length [OF a1(2)] dims(3) by (simp add: length_calib_out)
    from layer_acc_abs [OF w(3) calib_out_int8 this a1(3) h(2)]
    show "np_abs_i32 v = \<bar>v\<bar>" .
  qed
  from l1 l2 l3 show ?thesis by blast
qed

text \<open>
  The theorem on the example network: the sample \<open>[-128, 127, -128]\<close> has the negative
  layer-1 accumulator \<open>-383\<close>, which the calibrated shift 2 takes to \<open>-96\<close>.
\<close>

theorem calibrated_shift_range_witness:
  "calibrate_shift ex_w1 ex_w2 ex_w3 ex_loader = Some (Inr [2, 0, 1])
     \<and> acc1_of ex_w1 [- 128, 127, - 128] = Inr [- 383, 1]
     \<and> list_all (in_int8_after_shift 2) [- 383, 1]
     \<and> drop_bit 2 (- 383 :: int) = - 96
     \<and> (\<exists>acc2 acc3. acc2_of ex_w1 2 ex_w2 [- 128, 127, - 128] = Inr acc2
           \<and> list_all (in_int8_after_shift 0) acc2
           \<and> acc3_of ex_w1 2 ex_w2 0 ex_w3 [- 128, 127, - 128] = Inr acc3
           \<and> list_all (in_int8_after_shift 1) acc3)"
proof -
  have cal: "calibrate_shift ex_w1 ex_w2 ex_w3 ex_loader = Some (Inr [2, 0, 1])"
    by code_simp
  have col: "collect_int8_inputs ex_loader
      = Inr [[127, - 128, 100], [3, 4, 5], [- 128, 127, - 128]]"
    by code_simp
  have a: "[- 128, 127, - 128] \<in> set [[127, - 128, 100], [3, 4, 5], [- 128, 127, - 128 :: int]]"
    by simp
  have w: "ternary_matrix ex_w1" "ternary_matrix ex_w2" "ternary_matrix ex_w3"
    by (simp_all add: ternary_matrix_def ternary_row_def ex_w1_def ex_w2_def ex_w3_def)
  have i8: "int8_vec [- 128, 127, - 128]"
    by (simp add: int8_vec_def)
  have dims: "length [- 128, 127, - 128 :: int] \<le> 784" "length ex_w1 \<le> 784"
    "length ex_w2 \<le> 784"
    by (simp_all add: ex_w1_def ex_w2_def)
  have acc1: "acc1_of ex_w1 [- 128, 127, - 128] = Inr [- 383, 1]"
    by code_simp
  have sh: "drop_bit 2 (- 383 :: int) = - 96"
    by (simp add: drop_bit_eq_div)
  from calibrated_shift_range [OF cal col a w i8 dims] acc1
  have "list_all (in_int8_after_shift 2) [- 383, 1]
     \<and> (\<exists>acc2 acc3. acc2_of ex_w1 2 ex_w2 [- 128, 127, - 128] = Inr acc2
           \<and> list_all (in_int8_after_shift 0) acc2
           \<and> acc3_of ex_w1 2 ex_w2 0 ex_w3 [- 128, 127, - 128] = Inr acc3
           \<and> list_all (in_int8_after_shift 1) acc3)"
    by auto
  with cal acc1 sh show ?thesis by simp
qed

section \<open>Order of the samples, and the empty calibration set\<close>

lemma matmul_i32_error: "matmul_i32 w a = Inl e \<Longrightarrow> e = ValueError"
  by (auto simp: matmul_i32_def split: if_splits)

lemma layer_acc_error: "layer_acc w a = Inl e \<Longrightarrow> e = ValueError"
  by (auto simp: layer_acc_def dest: matmul_i32_error)

lemma np_max_error: "np_max xs = Inl e \<Longrightarrow> e = ValueError"
  by (auto simp: np_max_def split: list.splits)

lemma acc_layers_errors:
  "only_value_errors (acc1_of w1)"
  "only_value_errors (acc2_of w1 s1 w2)"
  "only_value_errors (acc3_of w1 s1 w2 s2 w3)"
  by (auto simp: only_value_errors_def acc1_of_def acc2_of_def acc3_of_def
      split: sum.splits dest: layer_acc_error)

lemma sample_max_error:
  "only_value_errors layer \<Longrightarrow> sample_max layer a = Inl e \<Longrightarrow> e = ValueError"
  by (auto simp: only_value_errors_def sample_max_def split: sum.splits dest: np_max_error)

lemma max_abs_loop_closed_form:
  assumes "only_value_errors layer"
  shows "max_abs_loop layer xs m0 =
     (if \<exists>a \<in> set xs. sample_max layer a = Inl ValueError then Inl ValueError
      else Inr (Max (insert m0 ((\<lambda>a. projr (sample_max layer a)) ` set xs))))"
proof (induction xs arbitrary: m0)
  case Nil
  then show ?case by simp
next
  case (Cons x xs)
  show ?case
  proof (cases "sample_max layer x")
    case (Inl e)
    with sample_max_error [OF assms] have e: "sample_max layer x = Inl ValueError" by blast
    then have "max_abs_loop layer (x # xs) m0 = Inl ValueError"
      by (auto simp: sample_max_def split: sum.splits)
    with e show ?thesis by simp
  next
    case (Inr v)
    then have step: "max_abs_loop layer (x # xs) m0 = max_abs_loop layer xs (max m0 v)"
      by (auto simp: sample_max_def split: sum.splits)
    let ?S = "(\<lambda>a. projr (sample_max layer a)) ` set xs"
    have fin: "finite ?S" by simp
    have "Max (insert (max m0 v) ?S) = Max (insert m0 (insert v ?S))"
    proof (cases "?S = {}")
      case True
      then show ?thesis by (simp add: max.commute)
    next
      case False
      with fin show ?thesis by (simp add: max.assoc)
    qed
    with step Inr Cons.IH [of "max m0 v"] show ?thesis by simp
  qed
qed

lemma max_abs_loop_set_eq:
  assumes "only_value_errors layer" "set xs = set ys"
  shows "max_abs_loop layer xs m0 = max_abs_loop layer ys m0"
  by (simp add: max_abs_loop_closed_form [OF assms(1)] assms(2))

text \<open>
  C7 (calibration determinism under reordering). Two loaders whose collected samples
  are permutations of each other give, for the same weights, the same result of
  \<^verbatim>\<open>calibrate_shift\<close>: the same three shifts, or the same exception.
\<close>

theorem calibration_order_independent:
  assumes "collect_int8_inputs loader1 = Inr xs"
    and "collect_int8_inputs loader2 = Inr ys"
    and "mset xs = mset ys"
  shows "calibrate_shift w1 w2 w3 loader1 = calibrate_shift w1 w2 w3 loader2"
proof -
  from assms(3) have s: "set xs = set ys" by (rule mset_eq_setD)
  have "max_abs_loop (acc1_of w1) xs 0 = max_abs_loop (acc1_of w1) ys 0"
    by (rule max_abs_loop_set_eq [OF acc_layers_errors(1) s])
  moreover have "max_abs_loop (acc2_of w1 s1 w2) xs 0 = max_abs_loop (acc2_of w1 s1 w2) ys 0"
    for s1
    by (rule max_abs_loop_set_eq [OF acc_layers_errors(2) s])
  moreover have "max_abs_loop (acc3_of w1 s1 w2 s2 w3) xs 0
      = max_abs_loop (acc3_of w1 s1 w2 s2 w3) ys 0" for s1 s2
    by (rule max_abs_loop_set_eq [OF acc_layers_errors(3) s])
  ultimately show ?thesis
    using assms(1,2)
    by (simp add: calibrate_shift_def cong: sum.case_cong option.case_cong)
qed

text \<open>
  The theorem on the example loader and a loader with the same samples in another
  order and other batches.
\<close>

theorem calibration_order_independent_witness:
  "collect_int8_inputs ex_loader = Inr [[127, - 128, 100], [3, 4, 5], [- 128, 127, - 128]]
     \<and> collect_int8_inputs ex_loader_permuted
         = Inr [[- 128, 127, - 128], [127, - 128, 100], [3, 4, 5]]
     \<and> calibrate_shift ex_w1 ex_w2 ex_w3 ex_loader = Some (Inr [2, 0, 1])
     \<and> calibrate_shift ex_w1 ex_w2 ex_w3 ex_loader_permuted = Some (Inr [2, 0, 1])"
proof -
  have c1: "collect_int8_inputs ex_loader
      = Inr [[127, - 128, 100], [3, 4, 5], [- 128, 127, - 128]]"
    by code_simp
  have c2: "collect_int8_inputs ex_loader_permuted
      = Inr [[- 128, 127, - 128], [127, - 128, 100], [3, 4, 5]]"
    by code_simp
  have p: "mset [[127, - 128, 100], [3, 4, 5], [- 128, 127, - 128 :: int]]
      = mset [[- 128, 127, - 128], [127, - 128, 100], [3, 4, 5]]"
    by simp
  have cal: "calibrate_shift ex_w1 ex_w2 ex_w3 ex_loader = Some (Inr [2, 0, 1])"
    by code_simp
  from calibration_order_independent [OF c1 c2 p, of ex_w1 ex_w2 ex_w3] cal
  have "calibrate_shift ex_w1 ex_w2 ex_w3 ex_loader_permuted = Some (Inr [2, 0, 1])"
    by simp
  with c1 c2 cal show ?thesis by simp
qed

lemma concat_empty_cases:
  "concat loader = [] \<Longrightarrow> loader = [] \<or> list_ex (\<lambda>batch. batch = []) loader"
  by (cases loader) (auto simp: list_ex_iff)

text \<open>
  C6 (an empty calibration set fails fast). When the loader holds no sample at all,
  \<^verbatim>\<open>calibrate_shift\<close> raises an exception and returns no shifts: with no batch,
  \<^verbatim>\<open>np.concatenate\<close> of the empty list raises \<^verbatim>\<open>ValueError\<close> (line 127); with a
  batch of no samples, \<^verbatim>\<open>view\<close> raises (line 124). Both happen in
  \<^verbatim>\<open>collect_int8_inputs\<close>, before the first pass.
\<close>

theorem empty_calibration_set_fails:
  assumes "concat cal_loader = []"
  shows "\<exists>e. calibrate_shift w1 w2 w3 cal_loader = Some (Inl e)"
proof -
  from concat_empty_cases [OF assms]
  have "\<exists>e. collect_int8_inputs cal_loader = Inl e"
    by (auto simp: collect_int8_inputs_def np_concatenate_def split: list.splits)
  then show ?thesis by (auto simp: calibrate_shift_def)
qed

text \<open>
  The theorem on the loader of no batches and on a loader of two empty batches.
\<close>

theorem empty_calibration_set_fails_witness:
  "concat ([] :: int list list list) = []
     \<and> (\<exists>e. calibrate_shift ex_w1 ex_w2 ex_w3 [] = Some (Inl e))
     \<and> calibrate_shift ex_w1 ex_w2 ex_w3 [] = Some (Inl ValueError)
     \<and> concat ([[], []] :: int list list list) = []
     \<and> (\<exists>e. calibrate_shift ex_w1 ex_w2 ex_w3 [[], []] = Some (Inl e))
     \<and> calibrate_shift ex_w1 ex_w2 ex_w3 [[], []] = Some (Inl RuntimeError)"
proof -
  have h1: "concat ([] :: int list list list) = []" by simp
  have h2: "concat ([[], []] :: int list list list) = []" by simp
  note t1 = empty_calibration_set_fails [OF h1, of ex_w1 ex_w2 ex_w3]
  note t2 = empty_calibration_set_fails [OF h2, of ex_w1 ex_w2 ex_w3]
  have e1: "calibrate_shift ex_w1 ex_w2 ex_w3 [] = Some (Inl ValueError)" by code_simp
  have e2: "calibrate_shift ex_w1 ex_w2 ex_w3 [[], []] = Some (Inl RuntimeError)" by code_simp
  from t1 t2 e1 e2 show ?thesis by simp
qed

section \<open>The packed format\<close>

lemma bit_enc_high: "2 \<le> n \<Longrightarrow> \<not> bit (enc_of v) n"
  by (auto simp: enc_of_def bit_numeral_Bit0_iff bit_1_iff)

lemma field2_or_push:
  "field2 (x OR push_bit (i * 2) (enc_of v)) j =
     (if i = j then field2 x j OR enc_of v else field2 x j)"
proof (rule bit_eqI)
  fix n
  show "bit (field2 (x OR push_bit (i * 2) (enc_of v)) j) n =
        bit (if i = j then field2 x j OR enc_of v else field2 x j) n"
  proof (cases "i = j")
    case True
    then show ?thesis
      using bit_enc_high [of n v]
      by (auto simp: field2_def bit_simps)
  next
    case False
    show ?thesis
    proof (cases "n < 2")
      case False
      then show ?thesis using \<open>i \<noteq> j\<close> by (simp add: field2_def bit_simps)
    next
      case True
      have "\<not> (i * 2 \<le> j * 2 + n \<and> bit (enc_of v) (j * 2 + n - i * 2))"
      proof (cases "i < j")
        case True
        then have "2 \<le> j * 2 + n - i * 2" by linarith
        then show ?thesis using bit_enc_high by blast
      next
        case False
        with \<open>i \<noteq> j\<close> \<open>n < 2\<close> have "j * 2 + n < i * 2" by linarith
        then show ?thesis by simp
      qed
      with \<open>i \<noteq> j\<close> show ?thesis
        by (auto simp: field2_def bit_simps)
    qed
  qed
qed

lemma for_each_append:
  "for_each body (xs @ ys) s =
     (case for_each body xs s of Inl e \<Rightarrow> Inl e | Inr s' \<Rightarrow> for_each body ys s')"
  by (induction xs arbitrary: s) (auto split: sum.splits)

lemma pack_step_in_range:
  assumes "row < length w" "k \<le> length (w ! row)"
  shows "pack_step w k row tile p i =
     Inr (p[i div 16 := (p ! (i div 16))
            OR push_bit ((i mod 16) * 2) (enc_of (padded_val w k row (tile * 128 + i)))])"
  using assms by (simp add: pack_step_def getitem2_def padded_val_def Let_def)

lemma take_bit_32_push_enc:
  assumes "i < 16"
  shows "take_bit 32 (push_bit (i * 2) (enc_of v)) = push_bit (i * 2) (enc_of v)"
proof -
  have "take_bit 32 (push_bit (i * 2) (enc_of v))
      = push_bit (i * 2) (take_bit (32 - i * 2) (enc_of v))"
    by (simp add: take_bit_push_bit)
  moreover have "take_bit (32 - i * 2) (enc_of v) = enc_of v"
  proof (rule bit_eqI)
    fix n
    show "bit (take_bit (32 - i * 2) (enc_of v)) n = bit (enc_of v) n"
      using bit_enc_high [of n v] assms by (cases "n < 2") (auto simp: bit_simps)
  qed
  ultimately show ?thesis by simp
qed

lemma tile_inv_init: "tile_inv w k row tile 0 [0, 0, 0, 0, 0, 0, 0, 0]"
proof -
  have z: "([0, 0, 0, 0, 0, 0, 0, 0] :: int list) ! q = 0" if "q < 8" for q
  proof -
    have "([0, 0, 0, 0, 0, 0, 0, 0] :: int list) ! q \<in> set [0, 0, 0, 0, 0, 0, 0, 0]"
      using that by (intro nth_mem) (simp add: eval_nat_numeral)
    then show ?thesis by simp
  qed
  have "j div 16 < 8" if "j < 128" for j :: nat
    using that by simp
  with z show ?thesis
    by (simp add: tile_inv_def field2_def)
qed

lemma tile_inv_step:
  assumes inv: "tile_inv w k row tile i p" and i: "i < 128"
  shows "tile_inv w k row tile (Suc i)
           (p[i div 16 := (p ! (i div 16))
               OR push_bit ((i mod 16) * 2) (enc_of (padded_val w k row (tile * 128 + i)))])"
proof -
  let ?e = "enc_of (padded_val w k row (tile * 128 + i))"
  let ?p' = "p[i div 16 := (p ! (i div 16)) OR push_bit ((i mod 16) * 2) ?e]"
  from inv have len: "length p = 8"
    and fld: "\<And>j. j < 128 \<Longrightarrow> field2 (p ! (j div 16)) (j mod 16)
           = (if j < i then enc_of (padded_val w k row (tile * 128 + j)) else 0)"
    and tb: "\<And>q. q < 8 \<Longrightarrow> take_bit 32 (p ! q) = p ! q"
    by (auto simp: tile_inv_def)
  from i have q8: "i div 16 < 8" by simp
  have "field2 (?p' ! (j div 16)) (j mod 16)
      = (if j < Suc i then enc_of (padded_val w k row (tile * 128 + j)) else 0)"
    if j: "j < 128" for j
  proof (cases "j div 16 = i div 16")
    case False
    then have "j \<noteq> i" by auto
    moreover have "j < i \<longleftrightarrow> j < Suc i" using \<open>j \<noteq> i\<close> by auto
    ultimately show ?thesis using False fld [OF j] by simp
  next
    case True
    show ?thesis
    proof (cases "j mod 16 = i mod 16")
      case True
      with \<open>j div 16 = i div 16\<close> have "j = i"
        by (metis div_mult_mod_eq)
      with fld [OF j] show ?thesis
        by (simp add: field2_or_push len q8)
    next
      case False
      then have "j \<noteq> i" by auto
      then have "j < i \<longleftrightarrow> j < Suc i" by auto
      with False fld [OF j] True show ?thesis
        by (simp add: field2_or_push len q8)
    qed
  qed
  moreover have "take_bit 32 (?p' ! q) = ?p' ! q" if q: "q < 8" for q
  proof (cases "q = i div 16")
    case True
    have "i mod 16 < 16" by simp
    from take_bit_32_push_enc [OF this] tb [OF q] True len q show ?thesis
      by (simp add: take_bit_or [where ?'a = int])
  next
    case False
    with tb [OF q] show ?thesis by simp
  qed
  ultimately show ?thesis using len by (simp add: tile_inv_def)
qed

lemma pack_tile_prefix:
  assumes "row < length w" "k \<le> length (w ! row)" "n \<le> 128"
  shows "\<exists>p. for_each (pack_step w k row tile) [0..<n] [0, 0, 0, 0, 0, 0, 0, 0] = Inr p
           \<and> tile_inv w k row tile n p"
  using assms(3)
proof (induction n)
  case 0
  show ?case using tile_inv_init by simp
next
  case (Suc n)
  then obtain p where p: "for_each (pack_step w k row tile) [0..<n] [0, 0, 0, 0, 0, 0, 0, 0] = Inr p"
    "tile_inv w k row tile n p" by auto
  from Suc.prems have "n < 128" by simp
  note inv = tile_inv_step [OF p(2) this]
  have "for_each (pack_step w k row tile) [0..<Suc n] [0, 0, 0, 0, 0, 0, 0, 0]
      = pack_step w k row tile p n"
    by (simp add: for_each_append p(1) split: sum.splits)
  also note pack_step_in_range [OF assms(1,2)]
  finally show ?case using inv by blast
qed

lemma pack_tile_correct:
  assumes "row < length w" "k \<le> length (w ! row)"
  shows "\<exists>p. pack_tile w k row tile = Inr p \<and> tile_inv w k row tile 128 p"
  using pack_tile_prefix [OF assms, of 128 tile] by (simp add: pack_tile_def)

lemma tile_words_inv:
  assumes "row < length w" "k \<le> length (w ! row)"
  shows "pack_tile w k row tile = Inr (tile_words w k row tile)"
    and "tile_inv w k row tile 128 (tile_words w k row tile)"
  using pack_tile_correct [OF assms, of tile] by (auto simp: tile_words_def)

lemma length_tile_words:
  assumes "row < length w" "k \<le> length (w ! row)"
  shows "length (tile_words w k row tile) = 8"
  using tile_words_inv(2) [OF assms, of tile] by (simp add: tile_inv_def)

lemma pack_row_prefix:
  assumes "row < length w" "k \<le> length (w ! row)"
  shows "for_each (\<lambda>word_list tile.
             case pack_tile w k row tile of Inl e \<Rightarrow> Inl e
             | Inr packed \<Rightarrow> Inr (word_list @ packed)) [0..<n] word_list
         = Inr (word_list @ concat (map (tile_words w k row) [0..<n]))"
proof (induction n)
  case 0
  show ?case by simp
next
  case (Suc n)
  then show ?case
    by (simp add: for_each_append tile_words_inv(1) [OF assms])
qed

lemma pack_row_correct:
  assumes "row < length w" "k \<le> length (w ! row)"
  shows "pack_row w k word_list row = Inr (word_list @ row_words w k row)"
  by (simp add: pack_row_def row_words_def pack_row_prefix [OF assms])

lemma pack_weights_prefix:
  assumes "matrix_shape w m k" "n \<le> m"
  shows "for_each (pack_row w k) [0..<n] [] = Inr (concat (map (row_words w k) [0..<n]))"
  using assms(2)
proof (induction n)
  case 0
  show ?case by simp
next
  case (Suc n)
  then have n: "n < length w" using assms(1) by (simp add: matrix_shape_def)
  then have "k \<le> length (w ! n)"
    using assms(1) by (simp add: matrix_shape_def list_all_length)
  from pack_row_correct [OF n this] Suc show ?case
    by (simp add: for_each_append)
qed

lemma pack_weights_correct:
  assumes "matrix_shape w m k"
  shows "pack_weights w k m = Inr (concat (map (row_words w k) [0..<m]))"
  using pack_weights_prefix [OF assms, of m] by (simp add: pack_weights_def)

lemma chunk_of_concat:
  assumes "\<And>i. i < n \<Longrightarrow> length (f i) = c" "r < n"
  shows "take c (drop (r * c) (concat (map f [0..<n]))) = f r"
  using assms
proof (induction n)
  case 0
  then show ?case by simp
next
  case (Suc n)
  have len: "length (concat (map f [0..<n])) = n * c"
    using Suc.prems(1) by (induction n) auto
  show ?case
  proof (cases "r = n")
    case True
    with len Suc.prems(1) [of n] show ?thesis by simp
  next
    case False
    with Suc.prems(2) have r: "r < n" by simp
    then have "Suc r \<le> n" by simp
    then have "Suc r * c \<le> n * c" by (rule mult_le_mono1)
    then have le: "r * c + c \<le> n * c" by simp
    from Suc.IH [OF _ r] Suc.prems(1)
    have ih: "take c (drop (r * c) (concat (map f [0..<n]))) = f r" by simp
    from le len ih show ?thesis by simp
  qed
qed

lemma those_map_Some: "those (map Some xs) = Some xs"
  by (induction xs) simp_all

lemma decode2_enc_of:
  "v = - 1 \<or> v = 0 \<or> v = 1 \<Longrightarrow> decode2 (enc_of v) = Some v"
  by (auto simp: decode2_def enc_of_def)

lemma concat_tiles_upt:
  "concat (map (\<lambda>t. map (\<lambda>i. g (t * 128 + i)) [0..<128]) [0..<n]) = map g [0..<n * 128]"
proof (induction n)
  case 0
  show ?case by simp
next
  case (Suc n)
  have "map (\<lambda>i. g (n * 128 + i)) [0..<128] = map g (map (\<lambda>i. i + n * 128) [0..<128])"
    by (simp add: add.commute)
  also have "\<dots> = map g [n * 128..<n * 128 + 128]"
    by (simp only: map_add_upt add.commute)
  finally have last: "map (\<lambda>i. g (n * 128 + i)) [0..<128] = map g [n * 128..<n * 128 + 128]" .
  have "[0..<Suc n * 128] = [0..<n * 128] @ [n * 128..<n * 128 + 128]"
    using upt_add_eq_append [of 0 "n * 128" 128] by (simp add: add.commute)
  with Suc last show ?case by simp
qed

lemma padded_row:
  assumes "row < length w" "length (w ! row) = k"
  shows "map (padded_val w k row) [0..<k] = w ! row"
proof -
  have "map (padded_val w k row) [0..<k] = map (\<lambda>i. (w ! row) ! i) [0..<length (w ! row)]"
    using assms by (simp add: padded_val_def)
  then show ?thesis by (simp only: map_nth)
qed

lemma k_le_tiles: "k \<le> tiles_per_row k * 128"
  by (simp add: tiles_per_row_def)

lemma padded_val_ternary:
  assumes "ternary_matrix w" "row < length w" "length (w ! row) = k"
  shows "padded_val w k row col = - 1 \<or> padded_val w k row col = 0 \<or> padded_val w k row col = 1"
proof (cases "col < k")
  case False
  then show ?thesis by (simp add: padded_val_def)
next
  case True
  from assms(1,2) have "ternary_row (w ! row)"
    by (simp add: ternary_matrix_def list_all_length)
  with True assms(3) show ?thesis
    by (simp add: padded_val_def ternary_row_def list_all_length)
qed

lemma decode_tile_words:
  assumes "ternary_matrix w" "row < length w" "length (w ! row) = k"
  shows "decode_tile (tile_words w k row tile)
           = map (\<lambda>i. Some (padded_val w k row (tile * 128 + i))) [0..<128]"
proof -
  from assms(3) have "k \<le> length (w ! row)" by simp
  from tile_words_inv(2) [OF assms(2) this, of tile]
  have "field2 (tile_words w k row tile ! (j div 16)) (j mod 16)
          = enc_of (padded_val w k row (tile * 128 + j))" if "j < 128" for j
    using that by (simp add: tile_inv_def)
  then show ?thesis
    by (simp add: decode_tile_def decode2_enc_of padded_val_ternary [OF assms])
qed

lemma unpack_row_words:
  assumes "ternary_matrix w" "row < length w" "length (w ! row) = k"
  shows "unpack_row k (row_words w k row) = Some (w ! row)"
proof -
  let ?n = "tiles_per_row k"
  from assms(3) have kl: "k \<le> length (w ! row)" by simp
  have chunk: "take 8 (drop (t * 8) (row_words w k row)) = tile_words w k row t" if "t < ?n" for t
    unfolding row_words_def
    by (rule chunk_of_concat [OF length_tile_words [OF assms(2) kl] that])
  have "map (\<lambda>tile. decode_tile (take 8 (drop (tile * 8) (row_words w k row)))) [0..<?n]
      = map (\<lambda>t. map (\<lambda>i. Some (padded_val w k row (t * 128 + i))) [0..<128]) [0..<?n]"
    by (rule map_cong) (simp_all add: chunk decode_tile_words [OF assms])
  then have "concat (map (\<lambda>tile. decode_tile (take 8 (drop (tile * 8) (row_words w k row))))
                 [0..<?n])
      = concat (map (\<lambda>t. map (\<lambda>i. Some (padded_val w k row (t * 128 + i))) [0..<128])
                 [0..<?n])"
    by (rule arg_cong)
  also have "\<dots> = map (\<lambda>c. Some (padded_val w k row c)) [0..<?n * 128]"
    by (rule concat_tiles_upt)
  finally have "concat (map (\<lambda>tile. decode_tile (take 8 (drop (tile * 8) (row_words w k row))))
                 [0..<?n])
      = map (\<lambda>c. Some (padded_val w k row c)) [0..<?n * 128]" .
  then have "take k (concat (map (\<lambda>tile. decode_tile (take 8 (drop (tile * 8)
                  (row_words w k row)))) [0..<?n]))
      = map Some (map (padded_val w k row) [0..<k])"
    using k_le_tiles [of k] by (simp add: take_map)
  then show ?thesis
    by (simp only: unpack_row_def those_map_Some padded_row [OF assms(2,3)])
qed

lemma length_row_words:
  assumes "row < length w" "k \<le> length (w ! row)"
  shows "length (row_words w k row) = tiles_per_row k * 8"
proof -
  have "length (concat (map (tile_words w k row) [0..<n])) = n * 8" for n
    by (induction n) (simp_all add: length_tile_words [OF assms])
  then show ?thesis by (simp add: row_words_def)
qed

lemma length_packed:
  assumes "matrix_shape w m k"
  shows "length (concat (map (row_words w k) [0..<m])) = m * (tiles_per_row k * 8)"
proof -
  have rows: "row < length w \<and> k \<le> length (w ! row)" if "row < m" for row
    using assms that by (simp add: matrix_shape_def list_all_length)
  have "length (concat (map (row_words w k) [0..<n])) = n * (tiles_per_row k * 8)"
    if "n \<le> m" for n
    using that
  proof (induction n)
    case 0
    show ?case by simp
  next
    case (Suc n)
    then have "n < m" by simp
    from rows [OF this] have "length (row_words w k n) = tiles_per_row k * 8"
      by (intro length_row_words) simp_all
    with Suc show ?case by simp
  qed
  then show ?thesis by simp
qed

lemma unpack_packed:
  assumes "matrix_shape w m k" "ternary_matrix w"
  shows "unpack_weights k m (concat (map (row_words w k) [0..<m])) = Some w"
proof -
  let ?c = "tiles_per_row k * 8"
  have rows: "row < length w \<and> length (w ! row) = k" if "row < m" for row
    using assms(1) that by (simp add: matrix_shape_def list_all_length)
  have len: "length (row_words w k row) = ?c" if "row < m" for row
    using rows [OF that] by (intro length_row_words) simp_all
  have "map (\<lambda>row. unpack_row k (take ?c (drop (row * ?c)
              (concat (map (row_words w k) [0..<m]))))) [0..<m]
      = map (\<lambda>row. Some (w ! row)) [0..<m]"
  proof (rule map_cong [OF refl])
    fix row assume "row \<in> set [0..<m]"
    then have r: "row < m" by simp
    have "take ?c (drop (row * ?c) (concat (map (row_words w k) [0..<m]))) = row_words w k row"
      by (rule chunk_of_concat [OF len r])
    with rows [OF r] show "unpack_row k (take ?c (drop (row * ?c)
              (concat (map (row_words w k) [0..<m])))) = Some (w ! row)"
      by (simp add: unpack_row_words [OF assms(2)])
  qed
  also have "\<dots> = map Some (map (\<lambda>i. w ! i) [0..<length w])"
    using assms(1) by (simp add: matrix_shape_def)
  finally have "those (map (\<lambda>row. unpack_row k (take ?c (drop (row * ?c)
              (concat (map (row_words w k) [0..<m]))))) [0..<m]) = Some w"
    by (simp only: those_map_Some map_nth)
  with length_packed [OF assms(1)] show ?thesis
    by (simp add: unpack_weights_def)
qed

text \<open>
  C4 (pack/unpack round trip). For every \<open>m\<close> by \<open>k\<close> matrix with elements in
  \<open>{-1, 0, 1}\<close> the packer returns \<open>m * tiles_per_row k * 8\<close> words, and decoding
  them with the inverse of the encoding table, each row truncated to \<open>k\<close> columns,
  gives the matrix back.
\<close>

theorem pack_unpack_round_trip:
  assumes "matrix_shape w m k" "ternary_matrix w"
  shows "\<exists>words. pack_weights w k m = Inr words
           \<and> length words = m * tiles_per_row k * 8
           \<and> unpack_weights k m words = Some w"
  using length_packed [OF assms(1)] pack_weights_correct [OF assms(1)] unpack_packed [OF assms]
  by (simp add: mult.assoc)

text \<open>
  The theorem on a 2 by 4 matrix: one ragged tile for each row.
\<close>

theorem pack_unpack_round_trip_witness:
  "matrix_shape [[1, - 1, 0, 1], [0, 0, - 1, - 1]] 2 4
     \<and> ternary_matrix [[1, - 1, 0, 1], [0, 0, - 1, - 1]]
     \<and> pack_weights [[1, - 1, 0, 1], [0, 0, - 1, - 1]] 4 2
          = Inr [73, 0, 0, 0, 0, 0, 0, 0, 160, 0, 0, 0, 0, 0, 0, 0]
     \<and> unpack_weights 4 2 [73, 0, 0, 0, 0, 0, 0, 0, 160, 0, 0, 0, 0, 0, 0, 0]
          = Some [[1, - 1, 0, 1], [0, 0, - 1, - 1]]"
proof -
  have s: "matrix_shape [[1, - 1, 0, 1], [0, 0, - 1, - 1]] 2 4"
    by (simp add: matrix_shape_def)
  have t: "ternary_matrix [[1, - 1, 0, 1], [0, 0, - 1, - 1]]"
    by (simp add: ternary_matrix_def ternary_row_def)
  have p: "pack_weights [[1, - 1, 0, 1], [0, 0, - 1, - 1]] 4 2
          = Inr [73, 0, 0, 0, 0, 0, 0, 0, 160, 0, 0, 0, 0, 0, 0, 0]"
    by code_simp
  from pack_unpack_round_trip [OF s t] p
  have "unpack_weights 4 2 [73, 0, 0, 0, 0, 0, 0, 0, 160, 0, 0, 0, 0, 0, 0, 0]
          = Some [[1, - 1, 0, 1], [0, 0, - 1, - 1]]"
    by auto
  with s t p show ?thesis by simp
qed

lemma enc_of_cases: "enc_of v = 0 \<or> enc_of v = 1 \<or> enc_of v = 2"
  by (simp add: enc_of_def)

lemma tile_words_valid:
  assumes "row < length w" "k \<le> length (w ! row)" "word \<in> set (tile_words w k row tile)"
  shows "valid_packed_word word"
proof -
  let ?p = "tile_words w k row tile"
  note inv = tile_words_inv(2) [OF assms(1,2), of tile]
  from assms(3) obtain q where q: "q < length ?p" "word = ?p ! q"
    by (auto simp: in_set_conv_nth)
  with inv have q8: "q < 8" by (simp add: tile_inv_def)
  with inv q(2) have "take_bit 32 word = word" by (simp add: tile_inv_def)
  then have range: "0 \<le> word \<and> word < 2 ^ 32"
    by (simp add: take_bit_int_eq_self_iff)
  have "field2 word j = 0 \<or> field2 word j = 1 \<or> field2 word j = 2" if "j < 16" for j
  proof -
    from q8 that have "q * 16 + j < 128" by simp
    moreover from that have "(q * 16 + j) div 16 = q" "(q * 16 + j) mod 16 = j" by simp_all
    ultimately have "field2 word j = enc_of (padded_val w k row (tile * 128 + (q * 16 + j)))"
      using inv q(2) by (auto simp: tile_inv_def)
    then show ?thesis using enc_of_cases by simp
  qed
  with range show ?thesis by (simp add: valid_packed_word_def list_all_iff)
qed

text \<open>
  C9 (the packed encoding never emits the reserved pattern). For every \<open>m\<close> by \<open>k\<close>
  matrix, whatever its elements, every word the packer returns is a 32-bit value
  each of whose sixteen 2-bit fields is \<open>00\<close>, \<open>01\<close> or \<open>10\<close>, never \<open>11\<close>.
\<close>

theorem packed_fields_never_reserved:
  assumes "matrix_shape w m k"
  shows "\<exists>words. pack_weights w k m = Inr words \<and> list_all valid_packed_word words"
proof -
  have "valid_packed_word word"
    if "word \<in> set (concat (map (row_words w k) [0..<m]))" for word
  proof -
    from that obtain row tile where r: "row < m" "tile < tiles_per_row k"
      "word \<in> set (tile_words w k row tile)"
      by (auto simp: row_words_def)
    from r(1) assms have "row < length w" "k \<le> length (w ! row)"
      by (simp_all add: matrix_shape_def list_all_length)
    then show ?thesis using r(3) by (rule tile_words_valid)
  qed
  with pack_weights_correct [OF assms] show ?thesis
    by (simp add: list_all_iff)
qed

text \<open>
  The theorem on a row of 130 weights +1: two tiles, the second with 2 weights and
  126 positions of padding.
\<close>

theorem packed_fields_never_reserved_witness:
  "matrix_shape [replicate 130 1] 1 130
     \<and> pack_weights [replicate 130 1] 130 1
          = Inr [1431655765, 1431655765, 1431655765, 1431655765,
                 1431655765, 1431655765, 1431655765, 1431655765,
                 5, 0, 0, 0, 0, 0, 0, 0]
     \<and> list_all valid_packed_word
          [1431655765, 1431655765, 1431655765, 1431655765,
           1431655765, 1431655765, 1431655765, 1431655765,
           5, 0, 0, 0, 0, 0, 0, 0]"
proof -
  have s: "matrix_shape [replicate 130 1] 1 130"
    by (simp add: matrix_shape_def)
  have p: "pack_weights [replicate 130 1] 130 1
          = Inr [1431655765, 1431655765, 1431655765, 1431655765,
                 1431655765, 1431655765, 1431655765, 1431655765,
                 5, 0, 0, 0, 0, 0, 0, 0]"
    by code_simp
  from packed_fields_never_reserved [OF s] p
  have "list_all valid_packed_word
          [1431655765, 1431655765, 1431655765, 1431655765,
           1431655765, 1431655765, 1431655765, 1431655765,
           5, 0, 0, 0, 0, 0, 0, 0]"
    by auto
  with s p show ?thesis by simp
qed

lemma first_index_props:
  "v \<in> set xs \<Longrightarrow>
     first_index xs v < length xs \<and> xs ! first_index xs v = v
     \<and> (\<forall>j < first_index xs v. xs ! j \<noteq> v)"
proof (induction xs)
  case Nil
  then show ?case by simp
next
  case (Cons x xs)
  show ?case
  proof (cases "x = v")
    case True
    then show ?thesis by simp
  next
    case False
    with Cons.prems have "v \<in> set xs" by simp
    from Cons.IH [OF this] False show ?thesis
      by (auto simp: nth_Cons split: nat.splits)
  qed
qed

lemma np_argmax_first_max:
  assumes "np_argmax xs = Inr p"
  shows "p < length xs \<and> (\<forall>j < length xs. xs ! j \<le> xs ! p) \<and> (\<forall>j < p. xs ! j < xs ! p)"
proof -
  from assms obtain x rest where xs: "xs = x # rest" by (cases xs) (auto simp: np_argmax_def)
  have "np_argmax xs = Inr (first_index xs (fold max rest x))"
    unfolding np_argmax_def xs by (simp only: list.case)
  moreover have "fold max rest x = Max (set xs)"
    unfolding xs by (rule Max.set_eq_fold [symmetric])
  ultimately have p: "p = first_index xs (Max (set xs))"
    using assms by simp
  have "Max (set xs) \<in> set xs" using xs by (intro Max_in) auto
  from first_index_props [OF this] p
  have a: "p < length xs" "xs ! p = Max (set xs)" "\<forall>j < p. xs ! j \<noteq> Max (set xs)" by auto
  have le: "xs ! j \<le> xs ! p" if "j < length xs" for j
    using that a(2) by simp
  have "xs ! j < xs ! p" if "j < p" for j
  proof -
    from that a(1) have "j < length xs" by simp
    from le [OF this] a(3) that a(2) show ?thesis by (simp add: order_less_le)
  qed
  with a(1) le show ?thesis by blast
qed

lemma length_requant: "length (requant s acc) = length acc"
  by (simp add: requant_def)

lemma requant_nth:
  "j < length acc \<Longrightarrow> requant s acc ! j = clip_i8 (drop_bit s (acc ! j))"
  by (simp add: requant_def astype_int8_id clip_i8_def)

text \<open>
  C5, as amended (final-layer prediction). The predicted class is the first index at
  which the accumulator of the final layer, shifted right arithmetically by
  \<^verbatim>\<open>shifts[2]\<close> and clamped to \<open>[-128, 127]\<close>, is greatest. No rectification is
  applied to the final layer: the scores compared may be negative.
\<close>

theorem final_layer_prediction:
  assumes "int8_pred w1 w2 w3 shifts a = Inr pred"
  shows "\<exists>acc3 s3. int8_acc3 w1 w2 w3 shifts a = Inr acc3 \<and> getitem shifts 2 = Inr s3
           \<and> pred < length acc3
           \<and> (\<forall>j < length acc3.
                 clip_i8 (drop_bit s3 (acc3 ! j)) \<le> clip_i8 (drop_bit s3 (acc3 ! pred)))
           \<and> (\<forall>j < pred.
                 clip_i8 (drop_bit s3 (acc3 ! j)) < clip_i8 (drop_bit s3 (acc3 ! pred)))"
proof -
  from assms obtain acc3 s3 where
    h: "int8_acc3 w1 w2 w3 shifts a = Inr acc3" "getitem shifts 2 = Inr s3"
       "np_argmax (requant s3 acc3) = Inr pred"
    by (auto simp: int8_pred_def split: sum.splits)
  from np_argmax_first_max [OF h(3)]
  have p: "pred < length acc3"
    "\<forall>j < length acc3. requant s3 acc3 ! j \<le> requant s3 acc3 ! pred"
    "\<forall>j < pred. requant s3 acc3 ! j < requant s3 acc3 ! pred"
    by (simp_all add: length_requant)
  from p(1,2) have "\<forall>j < length acc3.
      clip_i8 (drop_bit s3 (acc3 ! j)) \<le> clip_i8 (drop_bit s3 (acc3 ! pred))"
    by (simp add: requant_nth)
  moreover from p(1,3) have "\<forall>j < pred.
      clip_i8 (drop_bit s3 (acc3 ! j)) < clip_i8 (drop_bit s3 (acc3 ! pred))"
    by (simp add: requant_nth)
  ultimately show ?thesis using h(1,2) p(1) by blast
qed

text \<open>
  C5 as it is stated fails: the prediction is taken from the shifted and clamped
  scores, not from the raw accumulators. With the shifts \<open>[0, 0, 1]\<close> that
  \<^verbatim>\<open>calibrate_shift\<close> returns for the two samples \<open>[127, 127]\<close> and \<open>[126, 1]\<close>, the
  sample \<open>[126, 1]\<close> has the final accumulators \<open>126\<close> and \<open>127\<close> in rows 0 and 1:
  their arg-max is 1, the shift by 1 makes both 63, and class 0 is predicted.
\<close>

theorem final_layer_prediction_counterexample:
  "calibrate_shift tie_w12 tie_w12 tie_w3 [[[127, 127], [126, 1]]] = Some (Inr [0, 0, 1])
     \<and> int8_acc3 tie_w12 tie_w12 tie_w3 [0, 0, 1] [126, 1]
          = Inr [126, 127, 0, 0, 0, 0, 0, 0, 0, 0]
     \<and> np_argmax [126, 127, 0, 0, 0, 0, 0, 0, 0, 0] = Inr 1
     \<and> int8_pred tie_w12 tie_w12 tie_w3 [0, 0, 1] [126, 1] = Inr 0
     \<and> int8_pred tie_w12 tie_w12 tie_w3 [0, 0, 1] [126, 1]
          \<noteq> np_argmax [126, 127, 0, 0, 0, 0, 0, 0, 0, 0]"
proof -
  have "calibrate_shift tie_w12 tie_w12 tie_w3 [[[127, 127], [126, 1]]] = Some (Inr [0, 0, 1])"
    by code_simp
  moreover have "int8_acc3 tie_w12 tie_w12 tie_w3 [0, 0, 1] [126, 1]
          = Inr [126, 127, 0, 0, 0, 0, 0, 0, 0, 0]"
    by code_simp
  moreover have "np_argmax [126, 127, 0, 0, 0, 0, 0, 0, 0, 0] = Inr 1"
    by code_simp
  moreover have "int8_pred tie_w12 tie_w12 tie_w3 [0, 0, 1] [126, 1] = Inr 0"
    by code_simp
  ultimately show ?thesis by simp
qed

text \<open>
  The theorem on a final layer whose accumulators \<open>[-8, -5]\<close> are negative: the
  scores \<open>-4\<close> and \<open>-3\<close> are compared as they are, and class 1 is predicted.
\<close>

theorem final_layer_prediction_witness:
  "int8_pred tie_w12 tie_w12 [[- 1, - 1], [- 1, 0]] [0, 0, 1] [5, 3] = Inr 1
     \<and> int8_acc3 tie_w12 tie_w12 [[- 1, - 1], [- 1, 0]] [0, 0, 1] [5, 3] = Inr [- 8, - 5]
     \<and> clip_i8 (drop_bit 1 ([- 8, - 5] ! 0)) < clip_i8 (drop_bit 1 ([- 8, - 5 :: int] ! 1))
     \<and> clip_i8 (drop_bit 1 (- 8)) = - 4 \<and> clip_i8 (drop_bit 1 (- 5)) = - 3"
proof -
  have p: "int8_pred tie_w12 tie_w12 [[- 1, - 1], [- 1, 0]] [0, 0, 1] [5, 3] = Inr 1"
    by code_simp
  have a: "int8_acc3 tie_w12 tie_w12 [[- 1, - 1], [- 1, 0]] [0, 0, 1] [5, 3] = Inr [- 8, - 5]"
    by code_simp
  have g: "getitem [0, 0, 1 :: nat] 2 = Inr 1"
    by (simp add: getitem_def)
  from final_layer_prediction [OF p] a g
  have "\<forall>j<1. clip_i8 (drop_bit 1 ([- 8, - 5] ! j)) < clip_i8 (drop_bit 1 ([- 8, - 5 :: int] ! 1))"
    by auto
  then have "clip_i8 (drop_bit 1 ([- 8, - 5] ! 0)) < clip_i8 (drop_bit 1 ([- 8, - 5 :: int] ! 1))"
    by simp
  moreover have "clip_i8 (drop_bit 1 (- 8)) = - 4" "clip_i8 (drop_bit 1 (- 5)) = - 3"
    by (simp_all add: clip_i8_def drop_bit_eq_div)
  ultimately show ?thesis using p a by simp
qed

end
